theory Spec2Isabelle
  imports Main "HOL-Library.Sublist" "HOL-Library.List_Lexorder" "HOL-Library.Multiset"
    "HOL-Library.AList"
begin

unbundle bit_operations_syntax

section \<open>C strings and the libc functions the program calls\<close>

text \<open>
  A byte is a \<^typ>\<open>char\<close>, a buffer or a file is a \<^typ>\<open>string\<close>. The libc functions
  see a buffer as a C string: the bytes before the first NUL.
\<close>

definition NUL :: char where
  "NUL = CHR 0x00"

definition newline :: char where
  "newline = CHR 0x0A"

definition cstr :: "string \<Rightarrow> string" where
  "cstr buf = takeWhile (\<lambda>c. c \<noteq> NUL) buf"

text \<open>
  \<open>strcmp\<close>: bytes are compared as unsigned values up to the first difference or the
  terminating NUL (the end of the list is the terminator). The C standard fixes only the
  sign of the result; the program only ever tests the sign.
\<close>

fun strcmp :: "string \<Rightarrow> string \<Rightarrow> int" where
  "strcmp [] [] = 0"
| "strcmp [] (y # ys) = - int (of_char y)"
| "strcmp (x # xs) [] = int (of_char x)"
| "strcmp (x # xs) (y # ys) =
     (if x \<noteq> y then int (of_char x) - int (of_char y)
      else if x = NUL then 0
      else strcmp xs ys)"

text \<open>
  \<open>atoi\<close>: optional white space, an optional sign, then decimal digits up to the first
  byte that is not a digit; 0 when there is no digit. (Overflow is not modelled: the
  program calls it on a buffer of at most three bytes.)
\<close>

definition isspace :: "char \<Rightarrow> bool" where
  "isspace c = (c \<in> set [CHR '' '', CHR 0x09, CHR 0x0A, CHR 0x0B, CHR 0x0C, CHR 0x0D])"

definition isdigit :: "char \<Rightarrow> bool" where
  "isdigit c = (48 \<le> (of_char c :: nat) \<and> (of_char c :: nat) \<le> 57)"

fun atoi_digits :: "int \<Rightarrow> string \<Rightarrow> int" where
  "atoi_digits acc [] = acc"
| "atoi_digits acc (c # cs) =
     (if isdigit c then atoi_digits (10 * acc + (int (of_char c) - 48)) cs else acc)"

definition atoi :: "string \<Rightarrow> int" where
  "atoi buf =
     (case dropWhile isspace (cstr buf) of
        [] \<Rightarrow> 0
      | c # cs \<Rightarrow>
          if c = CHR ''-'' then - atoi_digits 0 cs
          else if c = CHR ''+'' then atoi_digits 0 cs
          else atoi_digits 0 (c # cs))"

section \<open>History entries\<close>

text \<open>
  \<open>struct hist_entry\<close>. The three header fields hold C strings; \<open>lines\<close> is the
  NULL-terminated array of line buffers, modelled by the list of its elements before the
  NULL.
\<close>

record hist_entry =
  type :: string
  timestamp :: string
  follow_lines :: string
  lines :: "string list"

text \<open>
  A record as \<open>read_entry\<close> builds it: the array holds \<open>atoi(follow_lines) + 1\<close> lines.
\<close>

definition wf_entry :: "hist_entry \<Rightarrow> bool" where
  "wf_entry e = (int (length (lines e)) = atoi (follow_lines e) + 1)"

text \<open>\<open>cmp_hist_entry_timestamp\<close>, the comparator handed to the sort.\<close>

definition cmp_hist_entry_timestamp :: "hist_entry \<Rightarrow> hist_entry \<Rightarrow> int" where
  "cmp_hist_entry_timestamp a b = strcmp (timestamp a) (timestamp b)"

text \<open>
  The line loop of \<open>eq_hist_entry\<close>. It runs while either array still has an element and
  hands both elements to \<open>strcmp\<close>: when one array has ended and the other has not,
  \<open>strcmp\<close> receives a NULL pointer. That is undefined behaviour, \<open>None\<close> in the model.
\<close>

fun eq_lines :: "string list \<Rightarrow> string list \<Rightarrow> int option" where
  "eq_lines [] [] = Some 1"
| "eq_lines [] (b # bs) = None"
| "eq_lines (a # as) [] = None"
| "eq_lines (a # as) (b # bs) = (if strcmp a b \<noteq> 0 then Some 0 else eq_lines as bs)"

definition eq_hist_entry :: "hist_entry \<Rightarrow> hist_entry \<Rightarrow> int option" where
  "eq_hist_entry a b =
     (if strcmp (type a) (type b) \<noteq> 0
         \<or> strcmp (timestamp a) (timestamp b) \<noteq> 0
         \<or> strcmp (follow_lines a) (follow_lines b) \<noteq> 0
      then Some 0
      else eq_lines (lines a) (lines b))"

section \<open>Streams\<close>

text \<open>
  A \<open>FILE *\<close> opened for reading is the list of the bytes not yet read. The buffers the
  program reads into are zeroed by \<open>calloc\<close>, so a read that stores nothing leaves the
  empty C string.
\<close>

definition strlen :: "string \<Rightarrow> nat" where
  "strlen buf = length (cstr buf)"

text \<open>
  \<open>fgets(buf, size, fh)\<close> stores at most \<open>size - 1\<close> bytes and stops after a newline or
  at the end of the input. \<open>fgets_chars\<close> counts the bytes still allowed.
\<close>

fun fgets_chars :: "nat \<Rightarrow> string \<Rightarrow> string \<times> string" where
  "fgets_chars 0 fh = ([], fh)"
| "fgets_chars (Suc k) [] = ([], [])"
| "fgets_chars (Suc k) (c # cs) =
     (if c = newline then ([c], cs)
      else (case fgets_chars k cs of (buf, fh') \<Rightarrow> (c # buf, fh')))"

definition fgets :: "nat \<Rightarrow> string \<Rightarrow> string \<times> string" where
  "fgets sz fh = fgets_chars (sz - 1) fh"

text \<open>\<open>fgetc\<close> with its result ignored: one byte is consumed when there is one.\<close>

definition fgetc :: "string \<Rightarrow> string" where
  "fgetc fh = (case fh of [] \<Rightarrow> [] | c # cs \<Rightarrow> cs)"

text \<open>
  \<open>getline\<close> returns a fresh buffer with the bytes up to and including the next newline,
  or up to the end of the input; it fails (\<open>-1\<close>) when no byte is left.
\<close>

fun getline_chars :: "string \<Rightarrow> string \<times> string" where
  "getline_chars [] = ([], [])"
| "getline_chars (c # cs) =
     (if c = newline then ([c], cs)
      else (case getline_chars cs of (buf, fh') \<Rightarrow> (c # buf, fh')))"

definition getline :: "string \<Rightarrow> (string \<times> string) option" where
  "getline fh = (if fh = [] then None else Some (getline_chars fh))"

text \<open>Output: a stream opened for writing is the list of the bytes written so far.\<close>

definition fputs :: "string \<Rightarrow> string \<Rightarrow> string" where
  "fputs buf out_stream = out_stream @ cstr buf"

definition fputc :: "char \<Rightarrow> string \<Rightarrow> string" where
  "fputc c out_stream = out_stream @ [c]"

section \<open>Writing and reading one entry\<close>

definition write_entry :: "hist_entry \<Rightarrow> string \<Rightarrow> string" where
  "write_entry entry out_stream =
     foldl (\<lambda>out line. fputs line out)
       (fputc (CHR '' '') (fputs (follow_lines entry)
         (fputc (CHR '' '') (fputs (timestamp entry)
           (fputc (CHR '' '') (fputs (type entry) out_stream))))))
       (lines entry)"

text \<open>
  The line loop of \<open>read_entry\<close>: \<open>read_lines k\<close> calls \<open>getline\<close> \<open>k\<close> times and fails as
  soon as one call fails.
\<close>

fun read_lines :: "nat \<Rightarrow> string \<Rightarrow> (string list \<times> string) option" where
  "read_lines 0 fh = Some ([], fh)"
| "read_lines (Suc k) fh =
     (case getline fh of
        None \<Rightarrow> None
      | Some (line, fh') \<Rightarrow>
          (case read_lines k fh' of
             None \<Rightarrow> None
           | Some (ls, fh'') \<Rightarrow> Some (line # ls, fh'')))"

text \<open>
  \<open>read_entry\<close> returns a pointer to a new entry or NULL. The model keeps the two ways
  to NULL apart: \<open>No_Entry\<close> is the silent return when the type field is not two bytes
  long, \<open>Missing_Lines\<close> the return after \<open>warn("Missing lines!")\<close>. Both are NULL for
  the caller.

  \<open>Bad_Line_Count\<close>: when \<open>atoi\<close> yields a number below \<open>-1\<close> the line array is
  allocated with \<open>2 + follow_lines \<le> 0\<close> elements and the loop does not run; the entry
  returned has no NULL-terminated line array, and every later traversal of it (writing,
  comparing, freeing) is undefined behaviour. The model stops there. Memory allocation
  is taken to succeed.
\<close>

datatype read_result = Entry hist_entry | No_Entry | Missing_Lines | Bad_Line_Count

definition read_entry :: "string \<Rightarrow> read_result \<times> string" where
  "read_entry hist_fh =
     (case fgets 3 hist_fh of (ty, fh1) \<Rightarrow>
        if strlen ty \<noteq> 2 then (No_Entry, fh1)
        else
          (case fgets 19 (fgetc fh1) of (ts, fh2) \<Rightarrow>
             (case fgets 4 (fgetc fh2) of (fl, fh3) \<Rightarrow>
                let follow = atoi fl in
                if follow < - 1 then (Bad_Line_Count, fgetc fh3)
                else
                  (case read_lines (nat (follow + 1)) (fgetc fh3) of
                     None \<Rightarrow> (Missing_Lines, [])
                   | Some (ls, fh4) \<Rightarrow>
                       (Entry \<lparr>type = ty, timestamp = ts, follow_lines = fl, lines = ls\<rparr>,
                        fh4)))))"

section \<open>Bubble sort\<close>

text \<open>
  The inner \<open>for\<close> loop of \<open>bubble_sort\<close>, from index \<open>i\<close>, on the state
  \<open>(array, new_n)\<close>; \<open>i < n - 1\<close> on C ints is \<open>i + 1 < n\<close>.
\<close>

function bubble_pass ::
  "('a \<Rightarrow> 'a \<Rightarrow> int) \<Rightarrow> nat \<Rightarrow> nat \<Rightarrow> 'a list \<times> nat \<Rightarrow> 'a list \<times> nat" where
  "bubble_pass compare n i (array, new_n) =
     (if i + 1 < n then
        (if compare (array ! i) (array ! (i + 1)) > 0
         then bubble_pass compare n (i + 1)
                (array[i := array ! (i + 1), i + 1 := array ! i], i + 1)
         else bubble_pass compare n (i + 1) (array, new_n))
      else (array, new_n))"
  by pat_completeness auto
termination
  by (relation "measure (\<lambda>(compare, n, i, st). n - i)") auto

declare bubble_pass.simps [simp del]

lemma bubble_pass_new_n:
  "snd (bubble_pass compare n i (array, new_n)) = new_n
   \<or> snd (bubble_pass compare n i (array, new_n)) < n"
proof (induction compare n i "(array, new_n)" arbitrary: array new_n rule: bubble_pass.induct)
  case (1 compare n i array new_n)
  show ?case
  proof (cases "i + 1 < n")
    case False
    then have "bubble_pass compare n i (array, new_n) = (array, new_n)"
      by (subst bubble_pass.simps) simp
    then show ?thesis by simp
  next
    case True
    show ?thesis
    proof (cases "compare (array ! i) (array ! (i + 1)) > 0")
      case swap: True
      have "bubble_pass compare n i (array, new_n) =
            bubble_pass compare n (i + 1)
              (array[i := array ! (i + 1), i + 1 := array ! i], i + 1)"
        using True swap by (subst bubble_pass.simps) simp
      with "1.hyps"(1) [OF True swap] True show ?thesis by auto
    next
      case keep: False
      have "bubble_pass compare n i (array, new_n) =
            bubble_pass compare n (i + 1) (array, new_n)"
        using True keep by (subst bubble_pass.simps) simp
      with "1.hyps"(2) [OF True keep] show ?thesis by auto
    qed
  qed
qed

text \<open>The \<open>do ... while (n > 1)\<close> loop.\<close>

function bubble_loop :: "('a \<Rightarrow> 'a \<Rightarrow> int) \<Rightarrow> 'a list \<Rightarrow> nat \<Rightarrow> 'a list" where
  "bubble_loop compare array n =
     (case bubble_pass compare n 0 (array, 1) of
        (array', new_n) \<Rightarrow> if new_n > 1 then bubble_loop compare array' new_n else array')"
  by pat_completeness auto
termination
proof (relation "measure (\<lambda>(compare, array, n). n)")
  show "wf (measure (\<lambda>(compare, array, n). n))" by simp
next
  fix compare :: "'a \<Rightarrow> 'a \<Rightarrow> int" and array :: "'a list" and n :: nat
    and array' :: "'a list" and new_n :: nat
  assume pair: "(array', new_n) = bubble_pass compare n 0 (array, 1)" and gt: "1 < new_n"
  from pair have "new_n = snd (bubble_pass compare n 0 (array, 1))"
    by (metis snd_conv)
  with bubble_pass_new_n [of compare n 0 array 1] gt have "new_n < n" by auto
  then show "((compare, array', new_n), (compare, array, n))
               \<in> measure (\<lambda>(compare, array, n). n)"
    by simp
qed

declare bubble_loop.simps [simp del]

definition bubble_sort :: "('a \<Rightarrow> 'a \<Rightarrow> int) \<Rightarrow> 'a list \<Rightarrow> 'a list" where
  "bubble_sort compare array = bubble_loop compare array (length array)"

section \<open>Loading a history file\<close>

lemma fgets_chars_append: "fgets_chars k fh = (buf, fh') \<Longrightarrow> fh = buf @ fh'"
  by (induction k fh arbitrary: buf fh' rule: fgets_chars.induct)
     (auto split: if_splits prod.splits)

lemma getline_chars_append: "getline_chars fh = (buf, fh') \<Longrightarrow> fh = buf @ fh'"
  by (induction fh arbitrary: buf fh') (auto split: if_splits prod.splits)

lemma read_lines_append: "read_lines k fh = Some (ls, fh') \<Longrightarrow> fh = concat ls @ fh'"
proof (induction k arbitrary: fh ls fh')
  case 0
  then show ?case by simp
next
  case (Suc k)
  from Suc.prems obtain line fh1 ls1 where
    g: "getline fh = Some (line, fh1)" and r: "read_lines k fh1 = Some (ls1, fh')"
    and ls: "ls = line # ls1"
    by (auto split: option.splits prod.splits)
  from g have "fh = line @ fh1"
    by (auto simp: getline_def dest: getline_chars_append split: if_splits)
  with Suc.IH [OF r] ls show ?case by simp
qed

lemma length_fgetc: "length (fgetc fh) \<le> length fh"
  by (cases fh) (simp_all add: fgetc_def)

lemma read_entry_consumes:
  assumes "read_entry fh = (Entry entry, fh')"
  shows "length fh' < length fh"
proof -
  obtain ty fh1 where t: "fgets 3 fh = (ty, fh1)" by (cases "fgets 3 fh")
  obtain ts fh2 where s: "fgets 19 (fgetc fh1) = (ts, fh2)" by (cases "fgets 19 (fgetc fh1)")
  obtain fl fh3 where f: "fgets 4 (fgetc fh2) = (fl, fh3)" by (cases "fgets 4 (fgetc fh2)")
  from assms t s f have len: "strlen ty = 2"
    by (auto simp: read_entry_def Let_def split: if_splits)
  from assms t s f len obtain ls where
    r: "read_lines (nat (atoi fl + 1)) (fgetc fh3) = Some (ls, fh')"
    by (auto simp: read_entry_def Let_def split: if_splits option.splits)
  have "length (cstr ty) \<le> length ty"
    unfolding cstr_def by (rule length_takeWhile_le)
  with len have "2 \<le> length ty" by (simp add: strlen_def)
  moreover from t have "length fh = length ty + length fh1"
    by (auto simp: fgets_def dest: fgets_chars_append)
  moreover from s have "length fh2 \<le> length (fgetc fh1)"
    by (auto simp: fgets_def dest: fgets_chars_append)
  moreover from f have "length fh3 \<le> length (fgetc fh2)"
    by (auto simp: fgets_def dest: fgets_chars_append)
  moreover from r have "length fh' \<le> length (fgetc fh3)"
    by (auto dest: read_lines_append)
  moreover note length_fgetc [of fh1] length_fgetc [of fh2] length_fgetc [of fh3]
  ultimately show ?thesis by linarith
qed

text \<open>
  \<open>insert_hist_entry\<close> appends the pointer, growing the array by 1000 slots at a time;
  with allocation taken to succeed it returns 1 and the array is one entry longer.
\<close>

definition insert_hist_entry :: "hist_entry list \<Rightarrow> hist_entry \<Rightarrow> hist_entry list" where
  "insert_hist_entry entries entry = entries @ [entry]"

text \<open>
  The \<open>while (entry = read_entry(hist_fh))\<close> loop of \<open>read_hist\<close>: it ends at the first
  NULL, whichever of the two ways \<open>read_entry\<close> came to it. \<open>None\<close> is the undefined
  behaviour that follows a \<open>Bad_Line_Count\<close> entry.
\<close>

function read_entries :: "string \<Rightarrow> hist_entry list \<Rightarrow> hist_entry list option" where
  "read_entries hist_fh entries =
     (case read_entry hist_fh of
        (r, fh') \<Rightarrow>
          (case r of
             Entry entry \<Rightarrow> read_entries fh' (insert_hist_entry entries entry)
           | No_Entry \<Rightarrow> Some entries
           | Missing_Lines \<Rightarrow> Some entries
           | Bad_Line_Count \<Rightarrow> None))"
  by pat_completeness auto
termination
proof (relation "measure (\<lambda>(hist_fh, entries). length hist_fh)")
  show "wf (measure (\<lambda>(hist_fh, entries). length hist_fh))" by simp
next
  fix hist_fh :: string and entries :: "hist_entry list" and r fh' entry
  assume "(r, fh') = read_entry hist_fh" and "r = Entry entry"
  then have "read_entry hist_fh = (Entry entry, fh')" by simp
  then have "length fh' < length hist_fh" by (rule read_entry_consumes)
  then show "((fh', insert_hist_entry entries entry), (hist_fh, entries))
               \<in> measure (\<lambda>(hist_fh, entries). length hist_fh)"
    by simp
qed

declare read_entries.simps [simp del]

text \<open>
  \<open>read_hist\<close> returns the array pointer, which is still NULL when no entry was
  inserted, and the number of entries (the length of the list).
\<close>

datatype entries_ptr = NULL | Entries "hist_entry list"

definition read_hist :: "string \<Rightarrow> entries_ptr option" where
  "read_hist hist_fh =
     (case read_entries hist_fh [] of
        None \<Rightarrow> None
      | Some entries \<Rightarrow>
          Some (if entries = [] then NULL
                else Entries (bubble_sort cmp_hist_entry_timestamp entries)))"

section \<open>Merging two lists of entries\<close>

text \<open>
  The first \<open>while\<close> loop of \<open>merge_entries\<close>. The output stream is kept as the list of
  the entries handed to \<open>write_entry\<close>, in call order; \<open>write_entries\<close> gives the bytes.
  \<open>None\<close>: \<open>eq_hist_entry\<close> ran into undefined behaviour.
\<close>

function merge_loop ::
  "hist_entry list \<Rightarrow> hist_entry list \<Rightarrow> nat \<Rightarrow> nat \<Rightarrow> hist_entry list
   \<Rightarrow> (nat \<times> nat \<times> hist_entry list) option" where
  "merge_loop entries_a entries_b i_a i_b written =
     (if i_a < length entries_a \<and> i_b < length entries_b then
        (let ts_cmp = strcmp (timestamp (entries_a ! i_a)) (timestamp (entries_b ! i_b)) in
         if ts_cmp \<le> 0 then
           (if ts_cmp = 0 then
              (case eq_hist_entry (entries_a ! i_a) (entries_b ! i_b) of
                 None \<Rightarrow> None
               | Some eq \<Rightarrow>
                   if eq \<noteq> 0
                   then merge_loop entries_a entries_b (i_a + 1) (i_b + 1)
                          (written @ [entries_a ! i_a])
                   else merge_loop entries_a entries_b (i_a + 1) i_b
                          (written @ [entries_a ! i_a]))
            else merge_loop entries_a entries_b (i_a + 1) i_b (written @ [entries_a ! i_a]))
         else merge_loop entries_a entries_b i_a (i_b + 1) (written @ [entries_b ! i_b]))
      else Some (i_a, i_b, written))"
  by pat_completeness auto
termination
  by (relation "measure (\<lambda>(entries_a, entries_b, i_a, i_b, written).
        (length entries_a - i_a) + (length entries_b - i_b))") auto

declare merge_loop.simps [simp del]

text \<open>
  \<open>merge_entries\<close>: the loop, then the rest of \<open>entries_a\<close>, then the rest of
  \<open>entries_b\<close> (the two trailing \<open>while\<close> loops write \<open>entries_a[i_a..]\<close> and
  \<open>entries_b[i_b..]\<close>). The result is the sequence of entries written.
\<close>

definition merge_entries :: "hist_entry list \<Rightarrow> hist_entry list \<Rightarrow> hist_entry list option" where
  "merge_entries entries_a entries_b =
     (case merge_loop entries_a entries_b 0 0 [] of
        None \<Rightarrow> None
      | Some (i_a, i_b, written) \<Rightarrow> Some (written @ drop i_a entries_a @ drop i_b entries_b))"

definition write_entries :: "hist_entry list \<Rightarrow> string \<Rightarrow> string" where
  "write_entries entries out_stream = foldl (\<lambda>out entry. write_entry entry out) out_stream entries"

text \<open>Sorted by timestamp, in the comparator's order.\<close>

definition ts_sorted :: "hist_entry list \<Rightarrow> bool" where
  "ts_sorted entries = sorted_wrt (\<lambda>a b. cmp_hist_entry_timestamp a b \<le> 0) entries"

text \<open>
  The same merge by recursion on the two lists (the parts of the arrays from \<open>i_a\<close> and
  \<open>i_b\<close> on); \<open>merge_entries_list\<close> below shows that \<open>merge_entries\<close> computes it.
\<close>

fun merge_list :: "hist_entry list \<Rightarrow> hist_entry list \<Rightarrow> hist_entry list option" where
  "merge_list [] bs = Some bs"
| "merge_list (a # as) [] = Some (a # as)"
| "merge_list (a # as) (b # bs) =
     (if strcmp (timestamp a) (timestamp b) \<le> 0 then
        (if strcmp (timestamp a) (timestamp b) = 0 then
           (case eq_hist_entry a b of
              None \<Rightarrow> None
            | Some eq \<Rightarrow>
                if eq \<noteq> 0 then map_option ((#) a) (merge_list as bs)
                else map_option ((#) a) (merge_list as (b # bs)))
         else map_option ((#) a) (merge_list as (b # bs)))
      else map_option ((#) b) (merge_list (a # as) bs))"

text \<open>
  For the correctness of the sort: the element at index \<open>k\<close> is not below any element
  before it (both under a key \<open>f\<close>), and this holds from index \<open>m\<close> on.
\<close>

definition prefix_max :: "('a \<Rightarrow> 'k::linorder) \<Rightarrow> 'a list \<Rightarrow> nat \<Rightarrow> bool" where
  "prefix_max f xs k = (\<forall>j<k. f (xs ! j) \<le> f (xs ! k))"

definition tail_max :: "('a \<Rightarrow> 'k::linorder) \<Rightarrow> 'a list \<Rightarrow> nat \<Rightarrow> bool" where
  "tail_max f xs m = (\<forall>k. m \<le> k \<and> k < length xs \<longrightarrow> prefix_max f xs k)"

section \<open>Files and directories\<close>

text \<open>
  The file system, as far as the program looks at it: a directory path leads to the
  entries \<open>readdir\<close> lists, in listing order, each a name with a regular file (its
  bytes) or a subdirectory. The program builds every file path as \<open>dir/name\<close>; a path
  is the pair. Two different paths are two different files (hard links and symbolic
  links are not modelled). The inode number \<open>stat\<close> reports for a path is a parameter
  \<open>st_ino\<close> of the functions that look at it; no file is removed or renamed, so a path
  keeps its number, and nothing is assumed about the numbers of different paths (they
  may be equal on different devices).
\<close>

datatype node = File string | Directory

type_synonym listing = "(string \<times> node) list"

type_synonym filesystem = "string \<rightharpoonup> listing"

type_synonym path = "string \<times> string"

definition lookup :: "filesystem \<Rightarrow> path \<Rightarrow> node option" where
  "lookup fs p = (case fs (fst p) of None \<Rightarrow> None | Some entries \<Rightarrow> map_of entries (snd p))"

text \<open>\<open>access(path, F_OK) != -1\<close>\<close>

definition access :: "filesystem \<Rightarrow> path \<Rightarrow> bool" where
  "access fs p = (lookup fs p \<noteq> None)"

text \<open>
  \<open>fopen(path, "r")\<close>: the stream of the file's bytes. A directory can be opened, and
  every read from it fails, as at the end of an empty stream.
\<close>

definition fopen_r :: "filesystem \<Rightarrow> path \<Rightarrow> string option" where
  "fopen_r fs p =
     (case lookup fs p of
        None \<Rightarrow> None
      | Some (File bytes) \<Rightarrow> Some bytes
      | Some Directory \<Rightarrow> Some [])"

text \<open>
  \<open>fopen(path, "w")\<close> creates the file or truncates it; it fails when the directory is
  missing or the path names a directory. \<open>fwrite_all\<close> is the content of the file when
  the stream is closed.
\<close>

definition fopen_w :: "filesystem \<Rightarrow> path \<Rightarrow> filesystem option" where
  "fopen_w fs p =
     (case fs (fst p) of
        None \<Rightarrow> None
      | Some entries \<Rightarrow>
          (case map_of entries (snd p) of
             Some Directory \<Rightarrow> None
           | _ \<Rightarrow> Some (fs(fst p \<mapsto> AList.update (snd p) (File []) entries))))"

definition fwrite_all :: "filesystem \<Rightarrow> path \<Rightarrow> string \<Rightarrow> filesystem" where
  "fwrite_all fs p bytes =
     (case fs (fst p) of
        None \<Rightarrow> fs
      | Some entries \<Rightarrow> fs(fst p \<mapsto> AList.update (snd p) (File bytes) entries))"

text \<open>
  \<open>merge_files\<close>: 1 and the new file system on success, 0 on failure; \<open>None\<close> is
  undefined behaviour. Both inputs are read before the output is opened.
\<close>

definition merge_files ::
  "filesystem \<Rightarrow> path \<Rightarrow> path \<Rightarrow> path \<Rightarrow> (int \<times> filesystem) option" where
  "merge_files fs file1 file2 fileO =
     (case fopen_r fs file1 of
        None \<Rightarrow> Some (0, fs)
      | Some fh1 \<Rightarrow>
          (case read_hist fh1 of
             None \<Rightarrow> None
           | Some NULL \<Rightarrow> Some (0, fs)
           | Some (Entries hist1) \<Rightarrow>
               (case fopen_r fs file2 of
                  None \<Rightarrow> Some (0, fs)
                | Some fh2 \<Rightarrow>
                    (case read_hist fh2 of
                       None \<Rightarrow> None
                     | Some NULL \<Rightarrow> Some (0, fs)
                     | Some (Entries hist2) \<Rightarrow>
                         (case fopen_w fs fileO of
                            None \<Rightarrow> Some (0, fs)
                          | Some fs' \<Rightarrow>
                              (case merge_entries hist1 hist2 of
                                 None \<Rightarrow> None
                               | Some written \<Rightarrow>
                                   Some (1, fwrite_all fs' fileO
                                              (write_entries written []))))))))"

text \<open>
  The integer conversions of \<open>copy\<close>, for Linux on a 64-bit machine: \<open>c_int\<close> is the
  value an \<open>int\<close> (32 bits, two's complement) takes when \<open>st_ino\<close> or \<open>st_size\<close> is
  stored in it, \<open>c_ulong\<close> the value of an \<open>int\<close> converted to the 64-bit unsigned type
  of \<open>ino_t\<close> and \<open>size_t\<close>. \<open>sendfile\<close> transfers at most \<open>0x7ffff000\<close> bytes in one
  call.
\<close>

definition c_int :: "nat \<Rightarrow> int" where
  "c_int n = (if int n mod 2 ^ 32 < 2 ^ 31 then int n mod 2 ^ 32 else int n mod 2 ^ 32 - 2 ^ 32)"

definition c_ulong :: "int \<Rightarrow> int" where
  "c_ulong i = i mod 2 ^ 64"

definition sendfile_max :: int where
  "sendfile_max = 0x7ffff000"

definition st_size :: "node \<Rightarrow> nat" where
  "st_size nd = (case nd of File bytes \<Rightarrow> length bytes | Directory \<Rightarrow> 0)"

text \<open>
  \<open>copy\<close>: \<open>stat\<close> of the source, with inode number and size kept in \<open>int\<close>
  variables; the shortcut when the destination exists and its inode number equals the
  stored one; then both files are opened (opening the destination truncates it) and
  \<open>sendfile\<close> copies up to \<open>size\<close> bytes of what the source then holds. \<open>sendfile\<close>
  fails on a directory, after the destination was created; the size \<open>stat\<close> reports
  for a directory plays no role.
\<close>

definition copy :: "(path \<Rightarrow> nat) \<Rightarrow> filesystem \<Rightarrow> path \<Rightarrow> path \<Rightarrow> int \<times> filesystem" where
  "copy st_ino fs source dest =
     (case lookup fs source of
        None \<Rightarrow> (0, fs)
      | Some src \<Rightarrow>
          let source_ino = c_int (st_ino source); size = c_int (st_size src) in
          if lookup fs dest \<noteq> None \<and> c_ulong source_ino = int (st_ino dest) then (1, fs)
          else
            (case fopen_w fs dest of
               None \<Rightarrow> (0, fs)
             | Some fs' \<Rightarrow>
                 (case lookup fs' source of
                    Some (File bytes) \<Rightarrow>
                      (1, fwrite_all fs' dest
                            (take (nat (min (c_ulong size) sendfile_max)) bytes))
                  | _ \<Rightarrow> (0, fs'))))"

text \<open>
  The two \<open>readdir\<close> loops of \<open>merge_dirs\<close>, over the entries the directory stream
  delivers, on the state \<open>(status, fs)\<close>.
\<close>

fun merge_pass1 ::
  "(path \<Rightarrow> nat) \<Rightarrow> string \<Rightarrow> string \<Rightarrow> string \<Rightarrow> listing \<Rightarrow> int \<times> filesystem
   \<Rightarrow> (int \<times> filesystem) option" where
  "merge_pass1 st_ino dir1 dir2 dirO [] st = Some st"
| "merge_pass1 st_ino dir1 dir2 dirO ((d_name, d_type) # rest) (status, fs) =
     (if d_type = Directory then merge_pass1 st_ino dir1 dir2 dirO rest (status, fs)
      else if d_name = ''.'' \<or> d_name = ''..'' then merge_pass1 st_ino dir1 dir2 dirO rest (status, fs)
      else if access fs (dir2, d_name) then
        (case merge_files fs (dir1, d_name) (dir2, d_name) (dirO, d_name) of
           None \<Rightarrow> None
         | Some (r, fs') \<Rightarrow> merge_pass1 st_ino dir1 dir2 dirO rest (status AND r, fs'))
      else
        (case copy st_ino fs (dir1, d_name) (dirO, d_name) of
           (r, fs') \<Rightarrow> merge_pass1 st_ino dir1 dir2 dirO rest (status AND r, fs')))"

fun merge_pass2 ::
  "(path \<Rightarrow> nat) \<Rightarrow> string \<Rightarrow> string \<Rightarrow> string \<Rightarrow> listing \<Rightarrow> int \<times> filesystem
   \<Rightarrow> (int \<times> filesystem) option" where
  "merge_pass2 st_ino dir1 dir2 dirO [] st = Some st"
| "merge_pass2 st_ino dir1 dir2 dirO ((d_name, d_type) # rest) (status, fs) =
     (if d_type = Directory then merge_pass2 st_ino dir1 dir2 dirO rest (status, fs)
      else if d_name = ''.'' \<or> d_name = ''..'' then merge_pass2 st_ino dir1 dir2 dirO rest (status, fs)
      else if \<not> access fs (dir1, d_name) then
        (case copy st_ino fs (dir2, d_name) (dirO, d_name) of
           (r, fs') \<Rightarrow> merge_pass2 st_ino dir1 dir2 dirO rest (status AND r, fs'))
      else merge_pass2 st_ino dir1 dir2 dirO rest (status, fs))"

text \<open>\<open>merge_dirs\<close>: both loops open \<open>dir1\<close>.\<close>

definition merge_dirs ::
  "(path \<Rightarrow> nat) \<Rightarrow> filesystem \<Rightarrow> string \<Rightarrow> string \<Rightarrow> string
   \<Rightarrow> (int \<times> filesystem) option" where
  "merge_dirs st_ino fs dir1 dir2 dirO =
     (case fs dir1 of
        None \<Rightarrow> Some (0, fs)
      | Some entries1 \<Rightarrow>
          (case merge_pass1 st_ino dir1 dir2 dirO entries1 (1, fs) of
             None \<Rightarrow> None
           | Some (status, fs1) \<Rightarrow>
               (case fs1 dir1 of
                  None \<Rightarrow> Some (0, fs1)
                | Some entries2 \<Rightarrow> merge_pass2 st_ino dir1 dir2 dirO entries2 (status, fs1))))"

text \<open>
  The lexical order of C strings, stated without \<open>strcmp\<close>: the key of a string is the
  list of its bytes (up to the first NUL) as numbers, and keys are compared in the
  lexicographic order of lists (a proper prefix is smaller; otherwise the first differing
  byte decides).
\<close>

definition ts_key :: "string \<Rightarrow> nat list" where
  "ts_key s = map of_char (cstr s)"

section \<open>Example entries\<close>

definition ex_x :: hist_entry where
  "ex_x = \<lparr>type = ''MR'', timestamp = ''20100901T13:39:14Z'', follow_lines = ''000'',
           lines = [''x\<newline>'']\<rparr>"

definition ex_y :: hist_entry where
  "ex_y = \<lparr>type = ''MR'', timestamp = ''20100901T13:39:14Z'', follow_lines = ''000'',
           lines = [''y\<newline>'']\<rparr>"

definition ex_early :: hist_entry where
  "ex_early = \<lparr>type = ''MS'', timestamp = ''20100831T08:00:00Z'', follow_lines = ''001'',
               lines = [''hello\<newline>'', ''world\<newline>'']\<rparr>"

text \<open>A log whose second record announces three lines and has one.\<close>

definition ex_truncated_record :: string where
  "ex_truncated_record = ''MR 20100902T10:00:00Z 002 only one line\<newline>''"

definition ex_truncated_log :: string where
  "ex_truncated_log = write_entry ex_x [] @ ex_truncated_record"

text \<open>The directory scenario: \<open>a.log\<close> only in the first, \<open>b.log\<close> only in the second.\<close>

definition ex_fs :: filesystem where
  "ex_fs =
     [''dirA'' \<mapsto> [(''.'', Directory), (''..'', Directory),
                    (''a.log'', File (write_entry ex_early [])),
                    (''shared.log'', File (write_entries [ex_early, ex_x] []))],
      ''dirB'' \<mapsto> [(''.'', Directory), (''..'', Directory),
                    (''shared.log'', File (write_entries [ex_x, ex_y] [])),
                    (''b.log'', File (write_entry ex_y []))],
      ''out'' \<mapsto> [(''.'', Directory), (''..'', Directory)]]"

text \<open>Inode numbers for the scenario, one for each file that exists or is created.\<close>

definition ex_ino :: "path \<Rightarrow> nat" where
  "ex_ino p =
     (case map_of [((''dirA'', ''a.log''), 1001), ((''dirA'', ''shared.log''), 1002),
                   ((''dirB'', ''shared.log''), 2001), ((''dirB'', ''b.log''), 2002),
                   ((''out'', ''a.log''), 3001), ((''out'', ''shared.log''), 3002)] p of
        Some i \<Rightarrow> i
      | None \<Rightarrow> 0)"

section \<open>The record text format\<close>

text \<open>
  The format of one record, in the words of the specification: a 2-character kind, a
  space, an 18-character timestamp, a space, a 3-digit decimal count, a space, and
  \<open>count + 1\<close> lines, each ended by its newline. Kind and timestamp are tokens of text
  (no newline, no NUL), a line is text ended by the only newline it holds.
\<close>

definition token :: "nat \<Rightarrow> string \<Rightarrow> bool" where
  "token n s = (length s = n \<and> newline \<notin> set s \<and> NUL \<notin> set s)"

definition digit_value :: "char \<Rightarrow> nat" where
  "digit_value c = of_char c - 48"

definition decimal_value :: "string \<Rightarrow> nat" where
  "decimal_value s = foldl (\<lambda>n c. 10 * n + digit_value c) 0 s"

definition text_line :: "string \<Rightarrow> bool" where
  "text_line l = (l \<noteq> [] \<and> last l = newline \<and> newline \<notin> set (butlast l) \<and> NUL \<notin> set l)"

definition record_text :: "string \<Rightarrow> string \<Rightarrow> string \<Rightarrow> string list \<Rightarrow> string" where
  "record_text kind ts cnt body =
     kind @ '' '' @ ts @ '' '' @ cnt @ '' '' @ concat body"


section \<open>Facts about the string functions\<close>

lemma strcmp_refl: "strcmp s s = 0"
  by (induction s) auto

lemma of_char_zero_iff: "(of_char c :: nat) = 0 \<longleftrightarrow> c = NUL"
proof -
  have "(of_char NUL :: nat) = 0" by (simp add: NUL_def)
  then show ?thesis by (metis of_char_eq_iff)
qed

lemma of_char_NUL: "(of_char NUL :: nat) = 0"
  by (simp add: NUL_def)

lemma of_char_less_iff: "x \<noteq> y \<Longrightarrow> (of_char x :: nat) \<le> of_char y \<longleftrightarrow> (of_char x :: nat) < of_char y"
  by (simp add: order_le_less)

lemma of_char_pos: "y \<noteq> NUL \<Longrightarrow> 0 < (of_char y :: nat)"
  using of_char_zero_iff [of y] by simp

lemma strcmp_zero_iff: "strcmp a b = 0 \<longleftrightarrow> cstr a = cstr b"
proof (induction a b rule: strcmp.induct)
  case (2 y ys)
  show ?case by (simp add: cstr_def of_char_zero_iff)
next
  case (3 x xs)
  show ?case by (simp add: cstr_def of_char_zero_iff)
next
  case (4 x xs y ys)
  then show ?case by (auto simp: cstr_def)
qed simp

lemma cstr_id: "NUL \<notin> set s \<Longrightarrow> cstr s = s"
  by (auto simp: cstr_def takeWhile_eq_all_conv)

lemma atoi_cstr: "cstr a = cstr b \<Longrightarrow> atoi a = atoi b"
  by (simp add: atoi_def)

lemma strcmp_le_iff: "strcmp a b \<le> 0 \<longleftrightarrow> ts_key a \<le> ts_key b"
proof (induction a b rule: strcmp.induct)
  case (3 x xs)
  show ?case by (simp add: ts_key_def cstr_def of_char_zero_iff)
next
  case (4 x xs y ys)
  then show ?case
    by (auto simp: ts_key_def cstr_def of_char_zero_iff of_char_NUL of_char_less_iff of_char_pos)
qed (simp_all add: ts_key_def cstr_def)

lemma strcmp_le_trans: "strcmp a b \<le> 0 \<Longrightarrow> strcmp b c \<le> 0 \<Longrightarrow> strcmp a c \<le> 0"
  unfolding strcmp_le_iff by (rule order_trans)

lemma strcmp_gt_flip: "strcmp a b > 0 \<Longrightarrow> strcmp b a \<le> 0"
  using strcmp_le_iff [of a b] strcmp_le_iff [of b a] by (simp add: not_le)

lemma ts_key_eq_iff: "ts_key a = ts_key b \<longleftrightarrow> strcmp a b = 0"
  by (simp add: ts_key_def strcmp_zero_iff inj_of_char)

lemma cmp_hist_entry_timestamp_key:
  "0 < cmp_hist_entry_timestamp a b \<longleftrightarrow> ts_key (timestamp b) < ts_key (timestamp a)"
  using strcmp_le_iff [of "timestamp a" "timestamp b"]
  by (auto simp: cmp_hist_entry_timestamp_def)

section \<open>The exact-duplicate test on well-formed records\<close>

lemma eq_lines_defined: "length as = length bs \<Longrightarrow> eq_lines as bs \<noteq> None"
  by (induction as bs rule: eq_lines.induct) auto

lemma eq_lines_refl: "eq_lines ls ls = Some 1"
  by (induction ls) (simp_all add: strcmp_refl)

lemma eq_hist_entry_refl: "eq_hist_entry e e = Some 1"
  by (simp add: eq_hist_entry_def strcmp_refl eq_lines_refl)

lemma wf_entry_same_length:
  assumes "wf_entry a" and "wf_entry b"
    and "strcmp (follow_lines a) (follow_lines b) = 0"
  shows "length (lines a) = length (lines b)"
proof -
  from assms(3) have "cstr (follow_lines a) = cstr (follow_lines b)"
    by (simp add: strcmp_zero_iff)
  then have "atoi (follow_lines a) = atoi (follow_lines b)"
    by (rule atoi_cstr)
  with assms(1,2) show ?thesis unfolding wf_entry_def by linarith
qed

lemma eq_hist_entry_wf:
  assumes "wf_entry a" and "wf_entry b"
  shows "\<exists>r. eq_hist_entry a b = Some r"
proof -
  have "eq_hist_entry a b \<noteq> None"
  proof (cases "strcmp (follow_lines a) (follow_lines b) = 0")
    case True
    with assms have "length (lines a) = length (lines b)"
      by (rule wf_entry_same_length)
    then have "eq_lines (lines a) (lines b) \<noteq> None"
      by (rule eq_lines_defined)
    then show ?thesis by (simp add: eq_hist_entry_def)
  next
    case False
    then show ?thesis by (simp add: eq_hist_entry_def)
  qed
  then show ?thesis by auto
qed

text \<open>
  C10. For two well-formed records (each line array holds exactly
  \<open>atoi(follow_lines) + 1\<close> lines) \<open>eq_hist_entry\<close> never hands a NULL line to
  \<open>strcmp\<close>: it returns normally. When the \<open>follow_lines\<close> fields differ it answers
  "unequal" whatever the lines are, and when they are equal both arrays have the same
  number of lines, so both reach their NULL terminator in the same iteration.
\<close>

theorem eq_hist_entry_no_null_deref:
  assumes "wf_entry a" and "wf_entry b"
  shows "eq_hist_entry a b \<noteq> None
       \<and> (strcmp (follow_lines a) (follow_lines b) \<noteq> 0 \<longrightarrow> eq_hist_entry a b = Some 0)
       \<and> (strcmp (follow_lines a) (follow_lines b) = 0 \<longrightarrow> length (lines a) = length (lines b))"
proof -
  from assms obtain r where "eq_hist_entry a b = Some r"
    using eq_hist_entry_wf by blast
  then have "eq_hist_entry a b \<noteq> None" by simp
  moreover have "strcmp (follow_lines a) (follow_lines b) \<noteq> 0 \<longrightarrow> eq_hist_entry a b = Some 0"
    by (simp add: eq_hist_entry_def)
  moreover have "strcmp (follow_lines a) (follow_lines b) = 0
                 \<longrightarrow> length (lines a) = length (lines b)"
    using assms by (blast intro: wf_entry_same_length)
  ultimately show ?thesis by blast
qed

theorem eq_hist_entry_no_null_deref_witness:
  "wf_entry \<lparr>type = ''MR'', timestamp = ''20100901T13:39:14Z'', follow_lines = ''001'',
             lines = [''a'', ''b'']\<rparr>
   \<and> wf_entry \<lparr>type = ''MR'', timestamp = ''20100901T13:39:14Z'', follow_lines = ''001'',
             lines = [''a'', ''c'']\<rparr>
   \<and> eq_hist_entry
        \<lparr>type = ''MR'', timestamp = ''20100901T13:39:14Z'', follow_lines = ''001'',
         lines = [''a'', ''b'']\<rparr>
        \<lparr>type = ''MR'', timestamp = ''20100901T13:39:14Z'', follow_lines = ''001'',
         lines = [''a'', ''c'']\<rparr> \<noteq> None"
proof -
  have wa: "wf_entry \<lparr>type = ''MR'', timestamp = ''20100901T13:39:14Z'', follow_lines = ''001'',
             lines = [''a'', ''b'']\<rparr>"
    by code_simp
  have wb: "wf_entry \<lparr>type = ''MR'', timestamp = ''20100901T13:39:14Z'', follow_lines = ''001'',
             lines = [''a'', ''c'']\<rparr>"
    by code_simp
  from eq_hist_entry_no_null_deref [OF wa wb] wa wb show ?thesis by blast
qed

section \<open>The merge loop on lists\<close>

lemma merge_list_Nil2: "merge_list as [] = Some as"
  by (cases as) simp_all

lemma merge_loop_list:
  "(case merge_loop A B i j w of
      None \<Rightarrow> None
    | Some (i', j', w') \<Rightarrow> Some (w' @ drop i' A @ drop j' B))
   = map_option ((@) w) (merge_list (drop i A) (drop j B))"
proof (induction A B i j w rule: merge_loop.induct)
  case (1 A B i j w)
  show ?case
  proof (cases "i < length A \<and> j < length B")
    case False
    then have "merge_loop A B i j w = Some (i, j, w)"
      by (subst merge_loop.simps) auto
    moreover from False have "merge_list (drop i A) (drop j B) = Some (drop i A @ drop j B)"
      by (auto simp: merge_list_Nil2)
    ultimately show ?thesis by simp
  next
    case True
    then have da: "drop i A = A ! i # drop (Suc i) A" and db: "drop j B = B ! j # drop (Suc j) B"
      by (simp_all add: Cons_nth_drop_Suc)
    show ?thesis
      using "1.IH" True
      by (subst merge_loop.simps) (auto simp: Let_def da db option.map_comp comp_def split: option.splits)
  qed
qed

lemma merge_entries_list: "merge_entries A B = merge_list A B"
  using merge_loop_list [of A B 0 0 "[]"]
  by (cases "merge_list A B") (simp_all add: merge_entries_def)

lemma merge_list_self: "merge_list A A = Some A"
  by (induction A) (simp_all add: strcmp_refl eq_hist_entry_refl)

lemma merge_list_distinct:
  assumes "ts_sorted A" and "ts_sorted B"
    and "\<forall>a\<in>set A. \<forall>b\<in>set B. eq_hist_entry a b = Some 0"
  shows "\<exists>L. merge_list A B = Some L \<and> L \<in> shuffles A B \<and> ts_sorted L"
  using assms
proof (induction A B rule: merge_list.induct)
  case (1 bs)
  then show ?case by simp
next
  case (2 a as)
  then show ?case by simp
next
  case (3 a as b bs)
  have eq0: "eq_hist_entry a b = Some 0" using "3.prems"(3) by simp
  have sa: "ts_sorted as" and sb: "ts_sorted bs"
    using "3.prems"(1,2) by (simp_all add: ts_sorted_def)
  have a_le: "\<forall>e\<in>set as. strcmp (timestamp a) (timestamp e) \<le> 0"
    using "3.prems"(1) by (simp add: ts_sorted_def cmp_hist_entry_timestamp_def)
  have b_le: "\<forall>e\<in>set bs. strcmp (timestamp b) (timestamp e) \<le> 0"
    using "3.prems"(2) by (simp add: ts_sorted_def cmp_hist_entry_timestamp_def)
  show ?case
  proof (cases "strcmp (timestamp a) (timestamp b) \<le> 0")
    case True
    have "\<exists>L. merge_list as (b # bs) = Some L \<and> L \<in> shuffles as (b # bs) \<and> ts_sorted L"
    proof (cases "strcmp (timestamp a) (timestamp b) = 0")
      case z: True
      show ?thesis
        using "3.IH"(2) [OF True z eq0 _ sa "3.prems"(2)] "3.prems"(3) by simp
    next
      case nz: False
      show ?thesis
        using "3.IH"(3) [OF True nz sa "3.prems"(2)] "3.prems"(3) by simp
    qed
    then obtain L where L: "merge_list as (b # bs) = Some L" "L \<in> shuffles as (b # bs)"
      "ts_sorted L" by blast
    have "\<forall>e\<in>set L. strcmp (timestamp a) (timestamp e) \<le> 0"
    proof
      fix e assume "e \<in> set L"
      with L(2) have "e \<in> set as \<or> e = b \<or> e \<in> set bs"
        by (auto dest: set_shuffles)
      then show "strcmp (timestamp a) (timestamp e) \<le> 0"
        using a_le b_le True by (auto intro: strcmp_le_trans)
    qed
    with L(3) have "ts_sorted (a # L)"
      by (simp add: ts_sorted_def cmp_hist_entry_timestamp_def)
    moreover have "merge_list (a # as) (b # bs) = Some (a # L)"
      using True eq0 L(1) by simp
    moreover have "a # L \<in> shuffles (a # as) (b # bs)"
      using L(2) by simp
    ultimately show ?thesis by blast
  next
    case False
    have "\<exists>L. merge_list (a # as) bs = Some L \<and> L \<in> shuffles (a # as) bs \<and> ts_sorted L"
      using "3.IH"(4) [OF False "3.prems"(1) sb] "3.prems"(3) by simp
    then obtain L where L: "merge_list (a # as) bs = Some L" "L \<in> shuffles (a # as) bs"
      "ts_sorted L" by blast
    from False have ba: "strcmp (timestamp b) (timestamp a) \<le> 0"
      by (simp add: strcmp_gt_flip)
    have "\<forall>e\<in>set L. strcmp (timestamp b) (timestamp e) \<le> 0"
    proof
      fix e assume "e \<in> set L"
      with L(2) have "e = a \<or> e \<in> set as \<or> e \<in> set bs"
        by (auto dest: set_shuffles)
      then show "strcmp (timestamp b) (timestamp e) \<le> 0"
        using a_le b_le ba by (auto intro: strcmp_le_trans)
    qed
    with L(3) have "ts_sorted (b # L)"
      by (simp add: ts_sorted_def cmp_hist_entry_timestamp_def)
    moreover have "merge_list (a # as) (b # bs) = Some (b # L)"
      using False L(1) by simp
    moreover have "b # L \<in> shuffles (a # as) (b # bs)"
      using L(2) by simp
    ultimately show ?thesis by blast
  qed
qed

lemma merge_list_subseq:
  assumes "ts_sorted A" and "subseq B A" and "\<forall>e\<in>set A. wf_entry e"
  shows "merge_list A B = Some A"
  using assms
proof (induction A arbitrary: B)
  case Nil
  then show ?case by simp
next
  case (Cons a as)
  have sa: "ts_sorted as" using Cons.prems(1) by (simp add: ts_sorted_def)
  have wf: "\<forall>e\<in>set as. wf_entry e" using Cons.prems(3) by simp
  have a_le: "\<forall>e\<in>set as. strcmp (timestamp a) (timestamp e) \<le> 0"
    using Cons.prems(1) by (simp add: ts_sorted_def cmp_hist_entry_timestamp_def)
  show ?case
  proof (cases B)
    case Nil
    then show ?thesis by simp
  next
    case B: (Cons b bs)
    have tail: "subseq bs as"
      using Cons.prems(2) B by (auto split: if_splits dest: subseq_Cons')
    have skip: "subseq (b # bs) as" if "a \<noteq> b"
      using Cons.prems(2) B that by simp
    have b_in: "b \<in> set (a # as)"
    proof -
      from Cons.prems(2) B have "subseq (b # bs) (a # as)" by simp
      then show ?thesis by (rule list_emb_set [where x = b]) auto
    qed
    then have le: "strcmp (timestamp a) (timestamp b) \<le> 0"
      using a_le by (auto simp: strcmp_refl)
    from b_in Cons.prems(3) have "wf_entry a" "wf_entry b" by auto
    then obtain r where r: "eq_hist_entry a b = Some r"
      using eq_hist_entry_wf by blast
    have neq: "a \<noteq> b" if "r = 0"
      using r that eq_hist_entry_refl [of a] by auto
    have dup: "merge_list as bs = Some as"
      using Cons.IH [OF sa tail wf] .
    have keep: "merge_list as (b # bs) = Some as" if "a \<noteq> b"
      using Cons.IH [OF sa skip [OF that] wf] .
    show ?thesis
    proof (cases "strcmp (timestamp a) (timestamp b) = 0")
      case True
      show ?thesis
      proof (cases "r = 0")
        case True
        with neq have "merge_list as (b # bs) = Some as" by (intro keep) simp
        with \<open>strcmp (timestamp a) (timestamp b) = 0\<close> r True show ?thesis
          by (simp add: B)
      next
        case False
        with \<open>strcmp (timestamp a) (timestamp b) = 0\<close> r dup show ?thesis
          by (simp add: B)
      qed
    next
      case False
      then have "a \<noteq> b"
        using strcmp_refl [of "timestamp a"] by auto
      then have "merge_list as (b # bs) = Some as" by (rule keep)
      with False le show ?thesis by (simp add: B)
    qed
  qed
qed

lemma ts_sorted_examples:
  "ts_sorted [ex_x]" "ts_sorted [ex_early, ex_x]" "ts_sorted [ex_x, ex_y]"
  "ts_sorted [ex_y, ex_x]" "ts_sorted [ex_y]"
  by code_simp+

lemma wf_examples: "wf_entry ex_x" "wf_entry ex_y" "wf_entry ex_early"
  by code_simp+

section \<open>Properties of the merge\<close>

text \<open>
  C5. Merging a sequence against itself writes exactly that sequence: at every step the
  two current entries are the same entry, the duplicate test succeeds, and the second
  copy is skipped. (This holds for every sequence, sorted or not.)
\<close>

theorem merge_entries_idempotent: "merge_entries A A = Some A"
  by (simp add: merge_entries_list merge_list_self)



text \<open>
  C4. Two inputs sorted by timestamp, no entry of the first an exact duplicate of an
  entry of the second (the duplicate test answers 0 for every such pair): the merge
  writes \<open>|A| + |B|\<close> entries, sorted by timestamp, and the sequence written is an
  interleaving of \<open>A\<close> and \<open>B\<close> (\<open>shuffles\<close>): the entries of each input keep their
  relative order.
\<close>

theorem merge_entries_no_duplicates:
  assumes "ts_sorted A" and "ts_sorted B"
    and "\<forall>a\<in>set A. \<forall>b\<in>set B. eq_hist_entry a b = Some 0"
  shows "\<exists>L. merge_entries A B = Some L \<and> length L = length A + length B
           \<and> ts_sorted L \<and> L \<in> shuffles A B"
proof -
  from merge_list_distinct [OF assms] obtain L where
    L: "merge_list A B = Some L" "L \<in> shuffles A B" "ts_sorted L" by blast
  from L(2) have "length L = length A + length B" by (rule length_shuffles)
  with L show ?thesis by (auto simp: merge_entries_list)
qed

theorem merge_entries_no_duplicates_witness:
  "ts_sorted [ex_early, ex_x] \<and> ts_sorted [ex_y]
   \<and> eq_hist_entry ex_early ex_y = Some 0 \<and> eq_hist_entry ex_x ex_y = Some 0
   \<and> (\<exists>L. merge_entries [ex_early, ex_x] [ex_y] = Some L
          \<and> length L = length [ex_early, ex_x] + length [ex_y]
          \<and> ts_sorted L \<and> L \<in> shuffles [ex_early, ex_x] [ex_y])"
proof -
  have h1: "ts_sorted [ex_early, ex_x]" by (rule ts_sorted_examples)
  have h2: "ts_sorted [ex_y]" by (rule ts_sorted_examples)
  have h3: "\<forall>a\<in>set [ex_early, ex_x]. \<forall>b\<in>set [ex_y]. eq_hist_entry a b = Some 0"
    by code_simp
  have h4: "eq_hist_entry ex_early ex_y = Some 0" "eq_hist_entry ex_x ex_y = Some 0"
    by code_simp+
  from merge_entries_no_duplicates [OF h1 h2 h3] h1 h2 h4 show ?thesis by blast
qed

text \<open>
  C3, as stated: "\<open>A\<close> and \<open>B\<close> sorted and every entry of \<open>A\<close> also in \<open>B\<close>; then the
  merge writes exactly \<open>A\<close>". It fails in two ways. When \<open>B\<close> holds an entry that \<open>A\<close>
  lacks, that entry is written too. And when \<open>B\<close> holds the same entries as \<open>A\<close> but two
  entries with one timestamp stand in the other order, the first comparison is a tie
  without equality, and one entry of \<open>B\<close> is never matched and is written at the end.
\<close>

theorem merge_entries_superset_counterexample:
  "ts_sorted [ex_x] \<and> ts_sorted [ex_early, ex_x]
   \<and> set [ex_x] \<subseteq> set [ex_early, ex_x]
   \<and> merge_entries [ex_x] [ex_early, ex_x] = Some [ex_early, ex_x]
   \<and> merge_entries [ex_x] [ex_early, ex_x] \<noteq> Some [ex_x]
   \<and> ts_sorted [ex_x, ex_y] \<and> ts_sorted [ex_y, ex_x]
   \<and> set [ex_x, ex_y] \<subseteq> set [ex_y, ex_x]
   \<and> merge_entries [ex_x, ex_y] [ex_y, ex_x] = Some [ex_x, ex_y, ex_x]
   \<and> merge_entries [ex_x, ex_y] [ex_y, ex_x] \<noteq> Some [ex_x, ex_y]"
  by code_simp

text \<open>
  C3, amended. \<open>A\<close> sorted by timestamp, its entries well formed, and \<open>B\<close> a subsequence
  of \<open>A\<close> (every entry of \<open>B\<close> is an entry of \<open>A\<close>, in the same relative order): the
  merge writes exactly \<open>A\<close>, so \<open>|A|\<close> entries, and every entry of \<open>B\<close> is dropped as a
  duplicate.
\<close>

theorem merge_entries_subseq:
  assumes "ts_sorted A" and "subseq B A" and "\<forall>e\<in>set A. wf_entry e"
  shows "merge_entries A B = Some A \<and> length (the (merge_entries A B)) = length A"
  using merge_list_subseq [OF assms] by (simp add: merge_entries_list)

theorem merge_entries_subseq_witness:
  "ts_sorted [ex_early, ex_x, ex_y] \<and> subseq [ex_early, ex_y] [ex_early, ex_x, ex_y]
   \<and> wf_entry ex_early \<and> wf_entry ex_x \<and> wf_entry ex_y
   \<and> merge_entries [ex_early, ex_x, ex_y] [ex_early, ex_y] = Some [ex_early, ex_x, ex_y]"
proof -
  have h1: "ts_sorted [ex_early, ex_x, ex_y]" by code_simp
  have h2: "subseq [ex_early, ex_y] [ex_early, ex_x, ex_y]" by code_simp
  have h3: "\<forall>e\<in>set [ex_early, ex_x, ex_y]. wf_entry e" by code_simp
  from merge_entries_subseq [OF h1 h2 h3] h1 h2 wf_examples show ?thesis by blast
qed

section \<open>Facts about reading and writing one record\<close>

lemma fgets_chars_exact:
  "newline \<notin> set buf \<Longrightarrow> fgets_chars (length buf) (buf @ fh) = (buf, fh)"
  by (induction buf) auto

lemma fgets_token:
  "token n s \<Longrightarrow> fgets (Suc n) (s @ fh) = (s, fh)"
  using fgets_chars_exact [of s fh] by (auto simp: token_def fgets_def)

lemma getline_chars_line:
  "newline \<notin> set pre \<Longrightarrow> getline_chars (pre @ newline # fh) = (pre @ [newline], fh)"
  by (induction pre) auto

lemma getline_text_line:
  assumes "text_line l"
  shows "getline (l @ fh) = Some (l, fh)"
proof -
  from assms have l: "l = butlast l @ [newline]" and nl: "newline \<notin> set (butlast l)"
    by (auto simp: text_line_def dest: append_butlast_last_id [symmetric])
  have "getline_chars (butlast l @ newline # fh) = (butlast l @ [newline], fh)"
    using nl by (rule getline_chars_line)
  with l have "getline_chars (l @ fh) = (l, fh)"
    by (metis append.assoc append_Cons append_Nil)
  moreover from assms have "l @ fh \<noteq> []" by (simp add: text_line_def)
  ultimately show ?thesis by (simp add: getline_def)
qed

lemma read_lines_text:
  "list_all text_line body \<Longrightarrow> read_lines (length body) (concat body @ fh) = Some (body, fh)"
  by (induction body) (simp_all add: getline_text_line)

lemma isdigit_plain:
  assumes "isdigit c"
  shows "\<not> isspace c" and "c \<noteq> CHR ''-''" and "c \<noteq> CHR ''+''" and "c \<noteq> NUL"
    and "c \<noteq> newline"
  using assms by (auto simp: isdigit_def isspace_def NUL_def newline_def)

lemma atoi_digits_decimal:
  "list_all isdigit s \<Longrightarrow>
   atoi_digits (int n) s = int (foldl (\<lambda>n c. 10 * n + digit_value c) n s)"
proof (induction s arbitrary: n)
  case Nil
  then show ?case by simp
next
  case (Cons c s)
  then have c: "isdigit c" and s: "list_all isdigit s" by simp_all
  from c have "10 * int n + (int (of_char c) - 48) = int (10 * n + digit_value c)"
    by (simp add: isdigit_def digit_value_def)
  with Cons.IH [OF s, of "10 * n + digit_value c"] c show ?case by simp
qed

lemma atoi_decimal:
  assumes "list_all isdigit s"
  shows "atoi s = int (decimal_value s)"
proof (cases s)
  case Nil
  then show ?thesis by (simp add: atoi_def cstr_def decimal_value_def)
next
  case (Cons c cs)
  from assms have "NUL \<notin> set s"
    by (auto simp: list_all_iff dest: isdigit_plain(4))
  then have "cstr s = s" by (rule cstr_id)
  moreover from assms Cons have "isdigit c" by simp
  ultimately show ?thesis
    using atoi_digits_decimal [OF assms, of 0] Cons
    by (simp add: atoi_def decimal_value_def isdigit_plain)
qed

lemma fputs_text: "NUL \<notin> set s \<Longrightarrow> fputs s out = out @ s"
  by (simp add: fputs_def cstr_id)

lemma fputs_lines:
  "list_all text_line body \<Longrightarrow> foldl (\<lambda>out line. fputs line out) out body = out @ concat body"
  by (induction body arbitrary: out) (simp_all add: fputs_text text_line_def)



lemma read_lines_length: "read_lines k fh = Some (ls, fh') \<Longrightarrow> length ls = k"
  by (induction k arbitrary: fh ls fh') (auto split: option.splits prod.splits)

lemma read_entry_wf:
  assumes "read_entry fh = (Entry e, fh')"
  shows "wf_entry e"
proof -
  obtain ty fh1 where t: "fgets 3 fh = (ty, fh1)" by (cases "fgets 3 fh")
  obtain ts fh2 where s: "fgets 19 (fgetc fh1) = (ts, fh2)" by (cases "fgets 19 (fgetc fh1)")
  obtain fl fh3 where f: "fgets 4 (fgetc fh2) = (fl, fh3)" by (cases "fgets 4 (fgetc fh2)")
  from assms t s f obtain ls where
    r: "read_lines (nat (atoi fl + 1)) (fgetc fh3) = Some (ls, fh')"
    and e: "e = \<lparr>type = ty, timestamp = ts, follow_lines = fl, lines = ls\<rparr>"
    and ge: "\<not> atoi fl < - 1"
    by (auto simp: read_entry_def Let_def split: if_splits option.splits)
  from r have "length ls = nat (atoi fl + 1)" by (rule read_lines_length)
  with ge e show ?thesis by (simp add: wf_entry_def)
qed

section \<open>Properties of the record parser and the loader\<close>

text \<open>
  C8. A record text in the fixed format (kind and timestamp tokens of 2 and 18 bytes,
  a count of three decimal digits, \<open>count + 1\<close> lines each ended by its newline), with
  anything after it: \<open>read_entry\<close> returns the record made of exactly these parts and
  leaves the stream right after the record, and \<open>write_entry\<close> on that record appends
  the original bytes of the record text to the output, unchanged.
\<close>

theorem read_write_roundtrip:
  assumes "token 2 kind" and "token 18 ts"
    and "length cnt = 3" and "list_all isdigit cnt"
    and "list_all text_line body" and "length body = decimal_value cnt + 1"
  shows "read_entry (record_text kind ts cnt body @ fh)
           = (Entry \<lparr>type = kind, timestamp = ts, follow_lines = cnt, lines = body\<rparr>, fh)
       \<and> write_entry \<lparr>type = kind, timestamp = ts, follow_lines = cnt, lines = body\<rparr> out
           = out @ record_text kind ts cnt body"
proof -
  have c3: "token 3 cnt"
    using assms(3,4) by (auto simp: token_def list_all_iff dest: isdigit_plain)
  have a: "atoi cnt = int (decimal_value cnt)"
    using assms(4) by (rule atoi_decimal)
  have k: "strlen kind = 2"
    using assms(1) by (simp add: token_def strlen_def cstr_id)
  have g1: "fgets 3 (kind @ CHR '' '' # ts @ CHR '' '' # cnt @ CHR '' '' # concat body @ fh)
              = (kind, CHR '' '' # ts @ CHR '' '' # cnt @ CHR '' '' # concat body @ fh)"
    using fgets_token [OF assms(1)] by (simp add: numeral_3_eq_3)
  have g2: "fgets 19 (ts @ CHR '' '' # cnt @ CHR '' '' # concat body @ fh)
              = (ts, CHR '' '' # cnt @ CHR '' '' # concat body @ fh)"
    using fgets_token [OF assms(2)] by simp
  have g3: "fgets 4 (cnt @ CHR '' '' # concat body @ fh) = (cnt, CHR '' '' # concat body @ fh)"
    using fgets_token [OF c3] by (simp add: eval_nat_numeral)
  have r: "read_lines (nat (int (decimal_value cnt) + 1)) (concat body @ fh) = Some (body, fh)"
    using read_lines_text [OF assms(5), of fh] assms(6) by (simp add: nat_add_distrib)
  have "read_entry (record_text kind ts cnt body @ fh)
          = (Entry \<lparr>type = kind, timestamp = ts, follow_lines = cnt, lines = body\<rparr>, fh)"
    using a by (simp add: read_entry_def record_text_def g1 g2 g3 k r fgetc_def)
  moreover have "write_entry \<lparr>type = kind, timestamp = ts, follow_lines = cnt, lines = body\<rparr> out
          = out @ record_text kind ts cnt body"
    using assms(1,2) c3
    by (simp add: write_entry_def record_text_def fputs_lines [OF assms(5)] fputs_text fputc_def
        token_def)
  ultimately show ?thesis by simp
qed

theorem read_write_roundtrip_witness:
  "token 2 ''MR'' \<and> token 18 ''20100901T13:39:14Z'' \<and> length ''001'' = 3
   \<and> list_all isdigit ''001'' \<and> list_all text_line [''hello\<newline>'', ''world\<newline>'']
   \<and> length [''hello\<newline>'', ''world\<newline>''] = decimal_value ''001'' + 1
   \<and> read_entry (''MR 20100901T13:39:14Z 001 hello\<newline>world\<newline>'' @ ''MS'')
        = (Entry \<lparr>type = ''MR'', timestamp = ''20100901T13:39:14Z'', follow_lines = ''001'',
                  lines = [''hello\<newline>'', ''world\<newline>'']\<rparr>, ''MS'')
   \<and> write_entry \<lparr>type = ''MR'', timestamp = ''20100901T13:39:14Z'', follow_lines = ''001'',
                  lines = [''hello\<newline>'', ''world\<newline>'']\<rparr> []
        = ''MR 20100901T13:39:14Z 001 hello\<newline>world\<newline>''"
proof -
  have h1: "token 2 ''MR''" by code_simp
  have h2: "token 18 ''20100901T13:39:14Z''" by code_simp
  have h3: "length ''001'' = 3" by simp
  have h4: "list_all isdigit ''001''" by code_simp
  have h5: "list_all text_line [''hello\<newline>'', ''world\<newline>'']" by code_simp
  have h6: "length [''hello\<newline>'', ''world\<newline>''] = decimal_value ''001'' + 1" by code_simp
  have t: "record_text ''MR'' ''20100901T13:39:14Z'' ''001'' [''hello\<newline>'', ''world\<newline>'']
             = ''MR 20100901T13:39:14Z 001 hello\<newline>world\<newline>''"
    by (simp add: record_text_def)
  from read_write_roundtrip [OF h1 h2 h3 h4 h5 h6, of "''MS''" "[]"] h1 h2 h3 h4 h5 h6
  show ?thesis unfolding t by simp
qed



text \<open>
  C1 does not hold of the code. \<open>read_hist\<close> loops while \<open>read_entry\<close> returns an
  entry and cannot tell the NULL of a truncated record from the NULL at the end of the
  input. On a log with one good record followed by a truncated one, the second
  \<open>read_entry\<close> fails with missing lines, and \<open>read_hist\<close> returns the first record as
  a regular, non-NULL result.
\<close>

theorem read_hist_keeps_partial_snapshot:
  "fst (read_entry ex_truncated_record) = Missing_Lines
   \<and> read_hist ex_truncated_log = Some (Entries [ex_x])"
  by code_simp

section \<open>The directory scenario\<close>

lemma c_int_small:
  assumes "n < 2 ^ 31"
  shows "c_int n = int n"
proof -
  from assms have "int n < int (2 ^ 31)" by (simp only: of_nat_less_iff)
  then have "int n < 2 ^ 31" by simp
  then show ?thesis by (simp add: c_int_def)
qed

lemma c_ulong_small:
  assumes "0 \<le> i" and "i < 2 ^ 31"
  shows "c_ulong i = i"
proof -
  have "(2::int) ^ 31 < 2 ^ 64" by simp
  with assms(2) have "i < 2 ^ 64" by (rule less_trans)
  with assms(1) show ?thesis by (simp add: c_ulong_def)
qed


text \<open>
  An ordinary copy: a regular file below the \<open>sendfile\<close> limit, to a name that does not
  exist yet in an existing directory, arrives byte for byte.
\<close>

lemma copy_verbatim:
  assumes "lookup fs source = Some (File bytes)" and "lookup fs dest = None"
    and "fs (fst dest) = Some entries" and "length bytes < 2 ^ 31 - 4096"
  shows "copy st_ino fs source dest
           = (1, fs(fst dest \<mapsto> AList.update (snd dest) (File bytes) entries))"
proof -
  have ne: "source \<noteq> dest" using assms(1,2) by auto
  have small: "length bytes < 2 ^ 31" using assms(4) by simp
  have sz: "c_int (st_size (File bytes)) = int (length bytes)"
    using c_int_small [OF small] by (simp add: st_size_def)
  from small have "int (length bytes) < int (2 ^ 31)" by (simp only: of_nat_less_iff)
  then have isz: "int (length bytes) < 2 ^ 31" by simp
  have ul: "c_ulong (int (length bytes)) = int (length bytes)"
    using isz by (intro c_ulong_small) simp_all
  from assms(4) have "int (length bytes) < int (2 ^ 31 - 4096)" by (simp only: of_nat_less_iff)
  then have "int (length bytes) < 0x7ffff000" by simp
  then have mn: "nat (min (int (length bytes)) sendfile_max) = length bytes"
    by (simp add: sendfile_max_def min_def)
  have absent: "map_of entries (snd dest) = None"
    using assms(2,3) by (simp add: lookup_def)
  let ?fs' = "fs(fst dest \<mapsto> AList.update (snd dest) (File []) entries)"
  have op: "fopen_w fs dest = Some ?fs'"
    using assms(3) absent by (simp add: fopen_w_def)
  have src: "lookup ?fs' source = Some (File bytes)"
  proof (cases "fst source = fst dest")
    case True
    with ne have "snd source \<noteq> snd dest" by (simp add: prod_eq_iff)
    with True assms(1,3) show ?thesis by (simp add: lookup_def update_conv')
  next
    case False
    with assms(1) show ?thesis by (simp add: lookup_def)
  qed
  have wr: "fwrite_all ?fs' dest bytes
              = fs(fst dest \<mapsto> AList.update (snd dest) (File bytes) entries)"
    by (simp add: fwrite_all_def)
  show ?thesis
    using assms(1,2) by (simp add: copy_def Let_def sz ul mn op src wr)
qed

lemma merge_pass2_noop:
  assumes "fs dir1 = Some entries" and "set es \<subseteq> set entries"
  shows "merge_pass2 st_ino dir1 dir2 dirO es (status, fs) = Some (status, fs)"
  using assms(2)
proof (induction es)
  case Nil
  then show ?case by simp
next
  case (Cons e es)
  obtain d_name d_type where e: "e = (d_name, d_type)" by (cases e)
  with Cons.prems have "(d_name, d_type) \<in> set entries" by simp
  then have "map_of entries d_name \<noteq> None"
    by (metis weak_map_of_SomeI option.distinct(1))
  with assms(1) have "access fs (dir1, d_name)"
    by (simp add: access_def lookup_def)
  with Cons e show ?case by simp
qed

text \<open>
  C2 does not hold of the code. The second loop of \<open>merge_dirs\<close> opens \<open>dir1\<close> again,
  not \<open>dir2\<close>: it only ever sees names that exist in \<open>dir1\<close>, so its copy never runs
  (\<open>merge_pass2_noop\<close>). In the scenario the output directory receives \<open>a.log\<close> (the
  copy) and \<open>shared.log\<close> (the merge), the status is 1, and \<open>b.log\<close> is missing.
\<close>

theorem merge_dirs_skips_second_only:
  "map_option (\<lambda>(status, fs'). (status, fs' ''out'')) (merge_dirs ex_ino ex_fs ''dirA'' ''dirB'' ''out'')
     = Some (1, Some [(''.'', Directory), (''..'', Directory),
                      (''a.log'', File (write_entry ex_early [])),
                      (''shared.log'', File (write_entries [ex_early, ex_x, ex_y] []))])"
  by code_simp

section \<open>Correctness of the bubble sort\<close>

lemma bubble_pass_stop:
  "\<not> i + 1 < n \<Longrightarrow> bubble_pass compare n i (array, new_n) = (array, new_n)"
  by (subst bubble_pass.simps) simp

lemma bubble_pass_swap:
  "i + 1 < n \<Longrightarrow> compare (array ! i) (array ! (i + 1)) > 0 \<Longrightarrow>
   bubble_pass compare n i (array, new_n) =
   bubble_pass compare n (i + 1) (array[i := array ! (i + 1), i + 1 := array ! i], i + 1)"
  by (subst bubble_pass.simps) simp

lemma bubble_pass_keep:
  "i + 1 < n \<Longrightarrow> \<not> compare (array ! i) (array ! (i + 1)) > 0 \<Longrightarrow>
   bubble_pass compare n i (array, new_n) = bubble_pass compare n (i + 1) (array, new_n)"
  by (subst bubble_pass.simps) simp

lemma prefix_max_swap_above:
  assumes "i + 1 < k" and "k < length xs" and "prefix_max f xs k"
  shows "prefix_max f (xs[i := xs ! (i + 1), i + 1 := xs ! i]) k"
  unfolding prefix_max_def
proof (intro allI impI)
  fix j assume "j < k"
  from assms(3) have all: "\<And>j. j < k \<Longrightarrow> f (xs ! j) \<le> f (xs ! k)"
    by (simp add: prefix_max_def)
  from assms(1,2) have k: "xs[i := xs ! (i + 1), i + 1 := xs ! i] ! k = xs ! k"
    by simp
  have "f (xs[i := xs ! (i + 1), i + 1 := xs ! i] ! j) \<le> f (xs ! k)"
  proof (cases "j = i")
    case True
    with assms(1,2) have "xs[i := xs ! (i + 1), i + 1 := xs ! i] ! j = xs ! (i + 1)"
      by simp
    with all [of "i + 1"] assms(1) show ?thesis by simp
  next
    case False
    show ?thesis
    proof (cases "j = i + 1")
      case True
      with assms(1,2) have "xs[i := xs ! (i + 1), i + 1 := xs ! i] ! j = xs ! i"
        by simp
      with all [of i] assms(1) show ?thesis by simp
    next
      case False
      with \<open>j \<noteq> i\<close> have "xs[i := xs ! (i + 1), i + 1 := xs ! i] ! j = xs ! j"
        by simp
      with all [OF \<open>j < k\<close>] show ?thesis by simp
    qed
  qed
  with k show "f (xs[i := xs ! (i + 1), i + 1 := xs ! i] ! j)
               \<le> f (xs[i := xs ! (i + 1), i + 1 := xs ! i] ! k)"
    by simp
qed

lemma prefix_max_swap_at:
  assumes "i + 1 < length xs" and "prefix_max f xs i" and "f (xs ! (i + 1)) < f (xs ! i)"
  shows "prefix_max f (xs[i := xs ! (i + 1), i + 1 := xs ! i]) (i + 1)"
  unfolding prefix_max_def
proof (intro allI impI)
  fix j assume j: "j < i + 1"
  from assms(1) have top: "xs[i := xs ! (i + 1), i + 1 := xs ! i] ! (i + 1) = xs ! i"
    by simp
  have "f (xs[i := xs ! (i + 1), i + 1 := xs ! i] ! j) \<le> f (xs ! i)"
  proof (cases "j = i")
    case True
    with assms(1) have "xs[i := xs ! (i + 1), i + 1 := xs ! i] ! j = xs ! (i + 1)"
      by simp
    with assms(3) show ?thesis by simp
  next
    case False
    with j have "j < i" by simp
    then have "xs[i := xs ! (i + 1), i + 1 := xs ! i] ! j = xs ! j" by simp
    with assms(2) \<open>j < i\<close> show ?thesis by (simp add: prefix_max_def)
  qed
  with top show "f (xs[i := xs ! (i + 1), i + 1 := xs ! i] ! j)
                 \<le> f (xs[i := xs ! (i + 1), i + 1 := xs ! i] ! (i + 1))"
    by simp
qed

lemma prefix_max_keep:
  assumes "prefix_max f xs i" and "f (xs ! i) \<le> f (xs ! (i + 1))"
  shows "prefix_max f xs (i + 1)"
  unfolding prefix_max_def
proof (intro allI impI)
  fix j assume "j < i + 1"
  then consider "j = i" | "j < i" by linarith
  then show "f (xs ! j) \<le> f (xs ! (i + 1))"
  proof cases
    case 1
    with assms(2) show ?thesis by simp
  next
    case 2
    with assms(1) have "f (xs ! j) \<le> f (xs ! i)" by (simp add: prefix_max_def)
    then show ?thesis using assms(2) by (rule order_trans)
  qed
qed

lemma bubble_pass_inv:
  "(\<forall>a b. 0 < compare a b \<longleftrightarrow> f b < f a)
     \<Longrightarrow> n \<le> length array \<Longrightarrow> tail_max f array n
     \<Longrightarrow> (\<forall>k. new_n \<le> k \<and> k \<le> i \<longrightarrow> prefix_max f array k)
     \<Longrightarrow> prefix_max f array i
     \<Longrightarrow> tail_max f (fst (bubble_pass compare n i (array, new_n)))
           (snd (bubble_pass compare n i (array, new_n)))
         \<and> length (fst (bubble_pass compare n i (array, new_n))) = length array"
proof (induction compare n i "(array, new_n)" arbitrary: array new_n rule: bubble_pass.induct)
  case (1 compare n i array new_n)
  note cmp = "1.prems"(1) and len = "1.prems"(2) and A = "1.prems"(3) and B = "1.prems"(4)
    and C = "1.prems"(5)
  show ?case
  proof (cases "i + 1 < n")
    case False
    have "tail_max f array new_n"
      unfolding tail_max_def
    proof (intro allI impI)
      fix k assume k: "new_n \<le> k \<and> k < length array"
      show "prefix_max f array k"
      proof (cases "k \<le> i")
        case True
        with B k show ?thesis by simp
      next
        case False
        with \<open>\<not> i + 1 < n\<close> have "n \<le> k" by simp
        with A k show ?thesis by (simp add: tail_max_def)
      qed
    qed
    with False show ?thesis by (simp add: bubble_pass_stop)
  next
    case True
    show ?thesis
    proof (cases "compare (array ! i) (array ! (i + 1)) > 0")
      case swap: True
      let ?arr = "array[i := array ! (i + 1), i + 1 := array ! i]"
      from swap cmp have lt: "f (array ! (i + 1)) < f (array ! i)" by simp
      have len': "n \<le> length ?arr" using len by simp
      have C': "prefix_max f ?arr (i + 1)"
        using True len C lt by (intro prefix_max_swap_at) simp_all
      have A': "tail_max f ?arr n"
        unfolding tail_max_def
      proof (intro allI impI)
        fix k assume k: "n \<le> k \<and> k < length ?arr"
        with A have "prefix_max f array k" by (simp add: tail_max_def)
        with k True show "prefix_max f ?arr k"
          by (intro prefix_max_swap_above) simp_all
      qed
      have B': "\<forall>k. i + 1 \<le> k \<and> k \<le> i + 1 \<longrightarrow> prefix_max f ?arr k"
        using C' by (auto simp: le_antisym)
      from "1.hyps"(1) [OF True swap cmp len' A' B' C'] True swap show ?thesis
        by (simp add: bubble_pass_swap)
    next
      case keep: False
      with cmp have le: "f (array ! i) \<le> f (array ! (i + 1))" by (simp add: not_less)
      have C': "prefix_max f array (i + 1)"
        using C le by (rule prefix_max_keep)
      have B': "\<forall>k. new_n \<le> k \<and> k \<le> i + 1 \<longrightarrow> prefix_max f array k"
      proof (intro allI impI)
        fix k assume k: "new_n \<le> k \<and> k \<le> i + 1"
        show "prefix_max f array k"
        proof (cases "k = i + 1")
          case True
          with C' show ?thesis by simp
        next
          case False
          with k B show ?thesis by simp
        qed
      qed
      from "1.hyps"(2) [OF True keep cmp len A B' C'] True keep show ?thesis
        by (simp add: bubble_pass_keep)
    qed
  qed
qed

lemma bubble_loop_sorted:
  "(\<forall>a b. 0 < compare a b \<longleftrightarrow> f b < f a)
     \<Longrightarrow> n \<le> length array \<Longrightarrow> tail_max f array n
     \<Longrightarrow> sorted_wrt (\<lambda>a b. f a \<le> f b) (bubble_loop compare array n)"
proof (induction compare array n rule: bubble_loop.induct)
  case (1 compare array n)
  note cmp = "1.prems"(1) and len = "1.prems"(2) and A = "1.prems"(3)
  obtain array' new_n where p: "bubble_pass compare n 0 (array, 1) = (array', new_n)"
    by (cases "bubble_pass compare n 0 (array, 1)")
  have "tail_max f (fst (bubble_pass compare n 0 (array, 1)))
          (snd (bubble_pass compare n 0 (array, 1)))
        \<and> length (fst (bubble_pass compare n 0 (array, 1))) = length array"
    using cmp len A by (rule bubble_pass_inv) (simp_all add: prefix_max_def)
  with p have inv: "tail_max f array' new_n" and len': "length array' = length array"
    by simp_all
  from bubble_pass_new_n [of compare n 0 array 1] p have bound: "new_n = 1 \<or> new_n < n"
    by simp
  show ?case
  proof (cases "1 < new_n")
    case True
    with bound len len' have "new_n \<le> length array'" by simp
    with "1.IH" [OF p [symmetric] True cmp _ inv]
    have "sorted_wrt (\<lambda>a b. f a \<le> f b) (bubble_loop compare array' new_n)" by simp
    moreover have "bubble_loop compare array n = bubble_loop compare array' new_n"
      using p True by (subst bubble_loop.simps) simp
    ultimately show ?thesis by simp
  next
    case False
    have "sorted_wrt (\<lambda>a b. f a \<le> f b) array'"
      unfolding sorted_wrt_iff_nth_less
    proof (intro allI impI)
      fix i j assume "i < j" and "j < length array'"
      with False have "new_n \<le> j \<and> j < length array'" by simp
      with inv have "prefix_max f array' j" by (simp add: tail_max_def)
      with \<open>i < j\<close> show "f (array' ! i) \<le> f (array' ! j)" by (simp add: prefix_max_def)
    qed
    moreover have "bubble_loop compare array n = array'"
      using p False by (subst bubble_loop.simps) simp
    ultimately show ?thesis by simp
  qed
qed

lemma filter_swap_adjacent:
  "i + 1 < length xs \<Longrightarrow> \<not> (P (xs ! i) \<and> P (xs ! (i + 1)))
   \<Longrightarrow> filter P (xs[i := xs ! (i + 1), i + 1 := xs ! i]) = filter P xs"
proof (induction xs arbitrary: i)
  case Nil
  then show ?case by simp
next
  case (Cons a xs)
  show ?case
  proof (cases i)
    case 0
    with Cons.prems show ?thesis by (cases xs) auto
  next
    case (Suc k)
    with Cons.prems Cons.IH [of k] show ?thesis by simp
  qed
qed

lemma bubble_pass_stable:
  "(\<forall>a b. 0 < compare a b \<longrightarrow> f a \<noteq> f b) \<Longrightarrow> n \<le> length array
     \<Longrightarrow> filter (\<lambda>x. f x = t) (fst (bubble_pass compare n i (array, new_n)))
           = filter (\<lambda>x. f x = t) array
         \<and> mset (fst (bubble_pass compare n i (array, new_n))) = mset array
         \<and> length (fst (bubble_pass compare n i (array, new_n))) = length array"
proof (induction compare n i "(array, new_n)" arbitrary: array new_n rule: bubble_pass.induct)
  case (1 compare n i array new_n)
  note cmp = "1.prems"(1) and len = "1.prems"(2)
  show ?case
  proof (cases "i + 1 < n")
    case False
    then show ?thesis by (simp add: bubble_pass_stop)
  next
    case True
    show ?thesis
    proof (cases "compare (array ! i) (array ! (i + 1)) > 0")
      case swap: True
      let ?arr = "array[i := array ! (i + 1), i + 1 := array ! i]"
      from swap cmp have ne: "f (array ! i) \<noteq> f (array ! (i + 1))" by blast
      have len': "n \<le> length ?arr" using len by simp
      from True len have i1: "i + 1 < length array" by simp
      have "filter (\<lambda>x. f x = t) ?arr = filter (\<lambda>x. f x = t) array"
        using i1 ne by (intro filter_swap_adjacent) auto
      moreover have "mset ?arr = mset array"
        using i1 mset_swap [of "i + 1" array i] by simp
      moreover note "1.hyps"(1) [OF True swap cmp len']
      ultimately show ?thesis using True swap by (simp add: bubble_pass_swap)
    next
      case keep: False
      from "1.hyps"(2) [OF True keep cmp len] True keep show ?thesis
        by (simp add: bubble_pass_keep)
    qed
  qed
qed

lemma bubble_loop_stable:
  "(\<forall>a b. 0 < compare a b \<longrightarrow> f a \<noteq> f b) \<Longrightarrow> n \<le> length array
     \<Longrightarrow> filter (\<lambda>x. f x = t) (bubble_loop compare array n) = filter (\<lambda>x. f x = t) array
         \<and> mset (bubble_loop compare array n) = mset array"
proof (induction compare array n rule: bubble_loop.induct)
  case (1 compare array n)
  note cmp = "1.prems"(1) and len = "1.prems"(2)
  obtain array' new_n where p: "bubble_pass compare n 0 (array, 1) = (array', new_n)"
    by (cases "bubble_pass compare n 0 (array, 1)")
  from bubble_pass_stable [OF cmp len, of t 0 1] p
  have st: "filter (\<lambda>x. f x = t) array' = filter (\<lambda>x. f x = t) array"
    "mset array' = mset array" "length array' = length array"
    by simp_all
  from bubble_pass_new_n [of compare n 0 array 1] p have bound: "new_n = 1 \<or> new_n < n"
    by simp
  show ?case
  proof (cases "1 < new_n")
    case True
    with bound len st(3) have "new_n \<le> length array'" by simp
    with "1.IH" [OF p [symmetric] True cmp]
    have "filter (\<lambda>x. f x = t) (bubble_loop compare array' new_n) = filter (\<lambda>x. f x = t) array'
          \<and> mset (bubble_loop compare array' new_n) = mset array'" by simp
    moreover have "bubble_loop compare array n = bubble_loop compare array' new_n"
      using p True by (subst bubble_loop.simps) simp
    ultimately show ?thesis using st by simp
  next
    case False
    have "bubble_loop compare array n = array'"
      using p False by (subst bubble_loop.simps) simp
    with st show ?thesis by simp
  qed
qed

text \<open>
  C7. The sort \<open>read_hist\<close> applies, \<open>bubble_sort\<close> with \<open>cmp_hist_entry_timestamp\<close>, on
  any list of entries: the result is sorted by the lexical order of the timestamp
  strings (the bytes of each timestamp, as numbers, in lexicographic order: \<open>ts_key\<close>,
  an order that does not refer to the comparator), hence also in the comparator's order;
  it holds the same entries; and it is stable: for every timestamp \<open>t\<close> the entries whose
  timestamp equals \<open>t\<close> stand in the result in the order they had in the input.
  (The array length is taken to fit the C \<open>int\<close> the loop counts in.)
\<close>

theorem bubble_sort_sorted_stable:
  "sorted (map (\<lambda>e. ts_key (timestamp e)) (bubble_sort cmp_hist_entry_timestamp entries))
   \<and> ts_sorted (bubble_sort cmp_hist_entry_timestamp entries)
   \<and> mset (bubble_sort cmp_hist_entry_timestamp entries) = mset entries
   \<and> filter (\<lambda>e. strcmp (timestamp e) t = 0) (bubble_sort cmp_hist_entry_timestamp entries)
       = filter (\<lambda>e. strcmp (timestamp e) t = 0) entries"
proof -
  let ?f = "\<lambda>e. ts_key (timestamp e)"
  have cmp: "\<forall>a b. 0 < cmp_hist_entry_timestamp a b \<longleftrightarrow> ?f b < ?f a"
    by (simp add: cmp_hist_entry_timestamp_key)
  then have ne: "\<forall>a b. 0 < cmp_hist_entry_timestamp a b \<longrightarrow> ?f a \<noteq> ?f b"
    by auto
  have "tail_max ?f entries (length entries)" by (auto simp: tail_max_def)
  with cmp have key: "sorted_wrt (\<lambda>a b. ?f a \<le> ?f b)
                   (bubble_loop cmp_hist_entry_timestamp entries (length entries))"
    by (intro bubble_loop_sorted) simp_all
  then have "sorted (map ?f (bubble_sort cmp_hist_entry_timestamp entries))"
    by (simp add: sorted_map bubble_sort_def)
  moreover from key have "ts_sorted (bubble_sort cmp_hist_entry_timestamp entries)"
    by (simp add: ts_sorted_def bubble_sort_def cmp_hist_entry_timestamp_def strcmp_le_iff)
  moreover from bubble_loop_stable [OF ne, of "length entries" entries "ts_key t"]
  have "filter (\<lambda>e. ?f e = ts_key t) (bubble_sort cmp_hist_entry_timestamp entries)
          = filter (\<lambda>e. ?f e = ts_key t) entries
        \<and> mset (bubble_sort cmp_hist_entry_timestamp entries) = mset entries"
    by (simp add: bubble_sort_def)
  ultimately show ?thesis by (simp add: ts_key_eq_iff)
qed

end
